theory Spec2Isabelle
  imports Complex_Main "HOL-Library.AList"
begin

section \<open>The coin collector server (server.py)\<close>

text \<open>
  The server keeps its whole state in module-level variables and changes it from four
  kinds of coroutine: the connection handler \<open>handle\<close>, the delayed \<open>apply_input\<close>,
  the \<open>game_loop\<close> and \<open>spawn_coin\<close>. asyncio runs one coroutine at a time and
  switches only at an \<open>await\<close> that suspends, so every stretch of code between two
  suspension points is one atomic step on the state. The model has one function per such
  stretch, and an event type that names which stretch runs next and carries what the
  stretch reads from outside (the clock, the random generator, the message).

  Python floats are modelled as real numbers, Python ints as \<open>int\<close>, and the ordered
  dictionary \<open>players\<close> as an association list in insertion order.
\<close>

subsection \<open>Configuration\<close>

definition MAP_W :: real where "MAP_W = 800"
definition MAP_H :: real where "MAP_H = 500"
definition PLAYER_SPEED :: real where "PLAYER_SPEED = 180"
definition PLAYER_R :: real where "PLAYER_R = 15"
definition COIN_R :: real where "COIN_R = 10"
definition GAME_DURATION :: real where "GAME_DURATION = 180"
definition INTERMISSION :: real where "INTERMISSION = 10"

subsection \<open>State\<close>

text \<open>
  The coin is a dictionary with the keys \<open>x\<close> and \<open>y\<close>; a player is a dictionary
  with these two keys and five more (\<open>ws\<close> is the socket, an opaque handle).
\<close>

record point =
  x :: real
  y :: real

record player = point +
  ws :: nat
  vx :: real
  vy :: real
  score :: int
  color :: string

record world =
  players :: "(int \<times> player) list"
  next_pid :: int
  coin :: "point option"
  game_active :: bool
  game_end_time :: real
  intermission_end :: real
  last_winner :: "int option"

definition init_world :: world where
  "init_world =
     \<lparr>players = [], next_pid = 1, coin = None, game_active = False,
      game_end_time = 0, intermission_end = 0, last_winner = None\<rparr>"

text \<open>\<open>pid in players\<close>\<close>

definition has_player :: "int \<Rightarrow> world \<Rightarrow> bool" where
  "has_player pid w = (pid \<in> fst ` set (players w))"

subsection \<open>Helpers\<close>

definition get_color_for_pid :: "int \<Rightarrow> string" where
  "get_color_for_pid pid =
     (let palette = [''#2b85f0'', ''#ff4d4f'', ''#2bbf57'', ''#f07f2b'', ''#a02bf0'', ''#f02b85'']
      in palette ! nat ((pid - 1) mod int (length palette)))"

definition clamp :: "real \<Rightarrow> real \<Rightarrow> real \<Rightarrow> real" where
  "clamp v a b = max a (min b v)"

text \<open>\<open>math.hypot\<close> on two arguments.\<close>

definition hypot :: "real \<Rightarrow> real \<Rightarrow> real" where
  "hypot a b = sqrt (a\<^sup>2 + b\<^sup>2)"

text \<open>
  \<open>random.uniform(a, b)\<close> returns some number between its two arguments, both
  included. The number drawn is an argument of the model; this is what is known of it.
\<close>

definition uniform_ok :: "real \<Rightarrow> real \<Rightarrow> real \<Rightarrow> bool" where
  "uniform_ok a b r = (a \<le> r \<and> r \<le> b)"

subsection \<open>Decoded messages\<close>

text \<open>
  What \<open>json.loads\<close> returns. \<open>apply_input\<close> reads four keys of its argument with
  \<open>data.get(key, False)\<close> and tests the results for truth, so the truth value of
  every kind of JSON value matters, and an argument that is not a dictionary raises.
  \<open>JObj\<close> holds the items of a dictionary, each key once; numbers are real numbers.
\<close>

datatype json =
  JNull
| JBool bool
| JNum real
| JStr string
| JArr "json list"
| JObj "(string \<times> json) list"

fun truthy :: "json \<Rightarrow> bool" where
  "truthy JNull = False"
| "truthy (JBool b) = b"
| "truthy (JNum r) = (r \<noteq> 0)"
| "truthy (JStr s) = (s \<noteq> [])"
| "truthy (JArr js) = (js \<noteq> [])"
| "truthy (JObj kvs) = (kvs \<noteq> [])"

datatype py_error = AttributeError | ZeroDivisionError

text \<open>\<open>data.get(key, False)\<close>, already tested for truth.\<close>

definition get_flag :: "(string \<times> json) list \<Rightarrow> string \<Rightarrow> bool" where
  "get_flag d k = (case map_of d k of None \<Rightarrow> False | Some v \<Rightarrow> truthy v)"

subsection \<open>Input processing\<close>

text \<open>
  The part of \<open>apply_input\<close> after its \<open>asyncio.sleep(LATENCY)\<close>. The two axis
  sums are Python ints; the division \<open>vx /= d\<close> raises when \<open>d\<close> is zero.
\<close>

definition axis :: "bool \<Rightarrow> bool \<Rightarrow> int" where
  "axis neg pos = (if neg then -1 else 0) + (if pos then 1 else 0)"

text \<open>\<open>players[pid]["vx"] = vx\<close> and \<open>players[pid]["vy"] = vy\<close>, for a key that is present.\<close>

definition write_velocity :: "int \<Rightarrow> real \<Rightarrow> real \<Rightarrow> (int \<times> player) list \<Rightarrow> (int \<times> player) list" where
  "write_velocity pid a b ps =
     map (\<lambda>(k, p). if k = pid then (k, p\<lparr>vx := a, vy := b\<rparr>) else (k, p)) ps"

definition apply_input :: "int \<Rightarrow> json \<Rightarrow> world \<Rightarrow> py_error + world" where
  "apply_input pid data w =
     (if \<not> has_player pid w then Inr w
      else case data of
        JObj m \<Rightarrow>
          (let ax = axis (get_flag m ''left'') (get_flag m ''right'');
               ay = axis (get_flag m ''up'') (get_flag m ''down'')
           in if ax \<noteq> 0 \<or> ay \<noteq> 0 then
                (let d = hypot (real_of_int ax) (real_of_int ay)
                 in if d = 0 then Inl ZeroDivisionError
                    else Inr (w\<lparr>players :=
                           write_velocity pid (real_of_int ax / d) (real_of_int ay / d) (players w)\<rparr>))
              else Inr (w\<lparr>players :=
                     write_velocity pid (real_of_int ax) (real_of_int ay) (players w)\<rparr>))
      | _ \<Rightarrow> Inl AttributeError)"

subsection \<open>Round life cycle\<close>

text \<open>
  \<open>start_round\<close> walks over \<open>players.values()\<close> and draws two random numbers for
  each player; \<open>rnd i\<close> is the pair drawn for the player at position \<open>i\<close> of the walk.
  Neither \<open>start_round\<close> nor \<open>end_round\<close> has a suspension point.
\<close>

fun reset_players :: "(nat \<Rightarrow> real \<times> real) \<Rightarrow> nat \<Rightarrow> (int \<times> player) list \<Rightarrow> (int \<times> player) list" where
  "reset_players rnd i [] = []"
| "reset_players rnd i ((pid, p) # ps) =
     (pid, p\<lparr>score := 0, x := fst (rnd i), y := snd (rnd i), vx := 0, vy := 0\<rparr>)
       # reset_players rnd (Suc i) ps"

definition start_round :: "real \<Rightarrow> (nat \<Rightarrow> real \<times> real) \<Rightarrow> world \<Rightarrow> world" where
  "start_round now rnd w =
     w\<lparr>players := reset_players rnd 0 (players w),
       coin := None,
       last_winner := None,
       intermission_end := 0,
       game_active := True,
       game_end_time := now + GAME_DURATION\<rparr>"

text \<open>The loop of \<open>end_round\<close> over \<open>players.items()\<close>, on \<open>(best_pid, best_score)\<close>.\<close>

fun best_player :: "(int \<times> player) list \<Rightarrow> int option \<times> int \<Rightarrow> int option \<times> int" where
  "best_player [] acc = acc"
| "best_player ((pid, p) # ps) (best_pid, best_score) =
     (if score p > best_score then best_player ps (Some pid, score p)
      else best_player ps (best_pid, best_score))"

definition end_round :: "real \<Rightarrow> world \<Rightarrow> world" where
  "end_round now w =
     w\<lparr>game_active := False,
       last_winner := (if players w \<noteq> [] then fst (best_player (players w) (None, -1)) else None),
       coin := None,
       intermission_end := now + INTERMISSION\<rparr>"

subsection \<open>Connection handler\<close>

text \<open>
  \<open>handle\<close> runs in three stretches: registration up to the \<open>await delayed_send\<close> of the
  welcome message; after that delay, the automatic round start; and, once the socket
  is closed, the \<open>finally\<close> block. \<open>handle_register\<close> returns the identifier it issued.
\<close>

definition handle_register :: "nat \<Rightarrow> real \<Rightarrow> real \<Rightarrow> world \<Rightarrow> int \<times> world" where
  "handle_register sock rx ry w =
     (let pid = next_pid w;
          w1 = w\<lparr>next_pid := next_pid w + 1\<rparr>;
          c = get_color_for_pid pid
      in (pid, w1\<lparr>players := AList.update pid
            \<lparr>x = rx, y = ry, ws = sock, vx = 0, vy = 0, score = 0, color = c\<rparr> (players w1)\<rparr>))"

definition handle_autostart :: "real \<Rightarrow> (nat \<Rightarrow> real \<times> real) \<Rightarrow> world \<Rightarrow> world" where
  "handle_autostart now rnd w =
     (if \<not> game_active w \<and> length (players w) \<ge> 1 then start_round now rnd w else w)"

definition handle_finally :: "int \<Rightarrow> world \<Rightarrow> world" where
  "handle_finally pid w = w\<lparr>players := AList.delete pid (players w)\<rparr>"

subsection \<open>Coin spawner\<close>

text \<open>One turn of the loop of \<open>spawn_coin\<close>.\<close>

definition spawn_coin :: "real \<Rightarrow> real \<Rightarrow> world \<Rightarrow> world" where
  "spawn_coin rx ry w =
     (if game_active w \<and> coin w = None then w\<lparr>coin := Some \<lparr>x = rx, y = ry\<rparr>\<rparr> else w)"

subsection \<open>Game loop\<close>

definition integrate :: "real \<Rightarrow> player \<Rightarrow> player" where
  "integrate dt p =
     (let p1 = p\<lparr>x := x p + vx p * PLAYER_SPEED * dt\<rparr>;
          p2 = p1\<lparr>y := y p1 + vy p1 * PLAYER_SPEED * dt\<rparr>;
          p3 = p2\<lparr>x := clamp (x p2) PLAYER_R (MAP_W - PLAYER_R)\<rparr>
      in p3\<lparr>y := clamp (y p3) PLAYER_R (MAP_H - PLAYER_R)\<rparr>)"

definition move_players :: "real \<Rightarrow> (int \<times> player) list \<Rightarrow> (int \<times> player) list" where
  "move_players dt ps = map (\<lambda>(pid, p). (pid, integrate dt p)) ps"

definition touches :: "point \<Rightarrow> player \<Rightarrow> bool" where
  "touches c p = (hypot (x p - x c) (y p - y c) \<le> PLAYER_R + COIN_R)"

text \<open>The collision loop with its \<open>break\<close>; it returns the players and the coin.\<close>

fun collect :: "point \<Rightarrow> (int \<times> player) list \<Rightarrow> (int \<times> player) list \<times> point option" where
  "collect c [] = ([], Some c)"
| "collect c ((pid, p) # ps) =
     (if touches c p then ((pid, p\<lparr>score := score p + 1\<rparr>) # ps, None)
      else (case collect c ps of (ps', c') \<Rightarrow> ((pid, p) # ps', c')))"

text \<open>
  One turn of the loop of \<open>game_loop\<close>, up to \<open>broadcast\<close> (which only reads the state).
  \<open>dt\<close> is the time since the last turn, \<open>t_check\<close> the clock read by the deadline
  test, \<open>t_set\<close> the clock read inside \<open>end_round\<close> or \<open>start_round\<close>.
\<close>

definition game_loop :: "real \<Rightarrow> real \<Rightarrow> real \<Rightarrow> (nat \<Rightarrow> real \<times> real) \<Rightarrow> world \<Rightarrow> world" where
  "game_loop dt t_check t_set rnd w =
     (if game_active w then
        (let w1 = w\<lparr>players := move_players dt (players w)\<rparr>;
             w2 = (case coin w1 of
                     None \<Rightarrow> w1
                   | Some c \<Rightarrow> (case collect c (players w1) of
                                 (ps, c') \<Rightarrow> w1\<lparr>players := ps, coin := c'\<rparr>))
         in if t_check \<ge> game_end_time w2 then end_round t_set w2 else w2)
      else if intermission_end w \<noteq> 0 \<and> t_check \<ge> intermission_end w \<and> players w \<noteq> []
           then start_round t_set rnd w
           else w)"

subsection \<open>Events and reachable states\<close>

datatype event =
  Connect nat real real
| Welcomed real "nat \<Rightarrow> real \<times> real"
| Disconnect int
| Input int json
| Tick real real real "nat \<Rightarrow> real \<times> real"
| Spawn real real

text \<open>
  An exception in \<open>apply_input\<close> ends that task only; it is raised before anything is
  written, so the state stays as it was.
\<close>

fun step :: "event \<Rightarrow> world \<Rightarrow> world" where
  "step (Connect sock rx ry) w = snd (handle_register sock rx ry w)"
| "step (Welcomed now rnd) w = handle_autostart now rnd w"
| "step (Disconnect pid) w = handle_finally pid w"
| "step (Input pid data) w = (case apply_input pid data w of Inl e \<Rightarrow> w | Inr w' \<Rightarrow> w')"
| "step (Tick dt t_check t_set rnd) w = game_loop dt t_check t_set rnd w"
| "step (Spawn rx ry) w = spawn_coin rx ry w"

text \<open>The random numbers of an event lie in the ranges the code asks for.\<close>

definition spawn_ok :: "real \<times> real \<Rightarrow> bool" where
  "spawn_ok r = (uniform_ok 50 (MAP_W - 50) (fst r) \<and> uniform_ok 50 (MAP_H - 50) (snd r))"

definition rnd_ok :: "(nat \<Rightarrow> real \<times> real) \<Rightarrow> world \<Rightarrow> bool" where
  "rnd_ok rnd w = list_all (\<lambda>i. spawn_ok (rnd i)) [0..<length (players w)]"

fun event_ok :: "event \<Rightarrow> world \<Rightarrow> bool" where
  "event_ok (Connect sock rx ry) w = spawn_ok (rx, ry)"
| "event_ok (Welcomed now rnd) w = rnd_ok rnd w"
| "event_ok (Disconnect pid) w = True"
| "event_ok (Input pid data) w = True"
| "event_ok (Tick dt t_check t_set rnd) w = rnd_ok rnd w"
| "event_ok (Spawn rx ry) w = (uniform_ok 20 (MAP_W - 20) rx \<and> uniform_ok 20 (MAP_H - 20) ry)"

fun run :: "event list \<Rightarrow> world \<Rightarrow> world" where
  "run [] w = w"
| "run (e # es) w = run es (step e w)"

fun run_ok :: "event list \<Rightarrow> world \<Rightarrow> bool" where
  "run_ok [] w = True"
| "run_ok (e # es) w = (event_ok e w \<and> run_ok es (step e w))"

inductive reachable :: "world \<Rightarrow> bool" where
  reachable_init: "reachable init_world"
| reachable_step: "reachable w \<Longrightarrow> event_ok e w \<Longrightarrow> reachable (step e w)"

text \<open>The identifiers issued along a run, in the order of issue.\<close>

fun issued :: "event list \<Rightarrow> world \<Rightarrow> int list" where
  "issued [] w = []"
| "issued (Connect sock rx ry # es) w =
     fst (handle_register sock rx ry w) # issued es (step (Connect sock rx ry) w)"
| "issued (e # es) w = issued es (step e w)"

text \<open>The number of registrations in a run.\<close>

fun connects :: "event list \<Rightarrow> nat" where
  "connects [] = 0"
| "connects (Connect sock rx ry # es) = Suc (connects es)"
| "connects (e # es) = connects es"

subsection \<open>Concrete runs\<close>

text \<open>Random numbers, a message and event sequences on which the theorems are tried.\<close>

definition demo_rnd :: "nat \<Rightarrow> real \<times> real" where
  "demo_rnd i = (100, 100)"

definition demo_right :: json where
  "demo_right = JObj [(''right'', JBool True)]"

definition demo_walk :: "event list" where
  "demo_walk = [Connect 0 100 100, Welcomed 0 demo_rnd, Input 1 demo_right, Tick 10 10 10 demo_rnd]"

definition demo_start :: "event list" where
  "demo_start = [Connect 0 100 100, Welcomed 0 demo_rnd]"

text \<open>The number of coins in the world.\<close>

definition coin_count :: "world \<Rightarrow> nat" where
  "coin_count w = (case coin w of None \<Rightarrow> 0 | Some c \<Rightarrow> 1)"

definition demo_diagonal :: "(string \<times> json) list" where
  "demo_diagonal = [(''right'', JBool True), (''down'', JNum 1)]"

definition demo_two :: "event list" where
  "demo_two = [Connect 0 100 100, Connect 1 200 200, Welcomed 0 demo_rnd]"

definition demo_tie :: "event list" where
  "demo_tie = demo_two @
     [Spawn 100 100, Tick 0 0 0 demo_rnd, Input 1 demo_right, Tick 1 1 1 demo_rnd,
      Spawn 100 100, Tick 0 2 2 demo_rnd]"

definition demo_coin :: "event list" where
  "demo_coin = demo_two @ [Spawn 100 100]"

definition demo_intermission :: "event list" where
  "demo_intermission = [Connect 0 100 100, Welcomed 0 demo_rnd, Tick 0 180 180 demo_rnd]"

definition demo_seven :: "event list" where
  "demo_seven = map (\<lambda>i. Connect i 100 100) [0..<7]"

subsection \<open>What holds in every reachable state\<close>

text \<open>
  A player stays on the map; identifiers in the registry are positive, below the counter
  and in increasing order along the registry; scores are not negative; a coin exists only
  while a round is active.
\<close>

definition in_bounds :: "player \<Rightarrow> bool" where
  "in_bounds p =
     (PLAYER_R \<le> x p \<and> x p \<le> MAP_W - PLAYER_R \<and> PLAYER_R \<le> y p \<and> y p \<le> MAP_H - PLAYER_R)"

definition keys_ok :: "world \<Rightarrow> bool" where
  "keys_ok w =
     (1 \<le> next_pid w \<and> sorted_wrt (<) (map fst (players w)) \<and>
      list_all (\<lambda>k. 1 \<le> k \<and> k < next_pid w) (map fst (players w)))"

definition players_ok :: "(int \<times> player) list \<Rightarrow> bool" where
  "players_ok ps = list_all (\<lambda>q. 0 \<le> score (snd q) \<and> in_bounds (snd q)) ps"

definition coin_ok :: "world \<Rightarrow> bool" where
  "coin_ok w = (coin w \<noteq> None \<longrightarrow> game_active w)"

definition world_ok :: "world \<Rightarrow> bool" where
  "world_ok w = (keys_ok w \<and> players_ok (players w) \<and> coin_ok w)"

section \<open>Invariants\<close>

lemmas config_defs =
  MAP_W_def MAP_H_def PLAYER_SPEED_def PLAYER_R_def COIN_R_def GAME_DURATION_def
  INTERMISSION_def

lemma keys_reset_players: "map fst (reset_players rnd i ps) = map fst ps"
  by (induction rnd i ps rule: reset_players.induct) auto

lemma length_reset_players: "length (reset_players rnd i ps) = length ps"
  by (induction rnd i ps rule: reset_players.induct) auto

lemma spawn_ok_in_bounds:
  "spawn_ok r \<Longrightarrow> x p = fst r \<Longrightarrow> y p = snd r \<Longrightarrow> in_bounds p"
  by (simp add: spawn_ok_def uniform_ok_def in_bounds_def config_defs)

lemma players_ok_reset_players:
  "\<forall>j < length ps. spawn_ok (rnd (i + j)) \<Longrightarrow> players_ok (reset_players rnd i ps)"
proof (induction rnd i ps rule: reset_players.induct)
  case (1 rnd i)
  then show ?case by (simp add: players_ok_def)
next
  case (2 rnd i pid p ps)
  have "spawn_ok (rnd i)" using "2.prems" by force
  moreover have "\<forall>j < length ps. spawn_ok (rnd (Suc i + j))"
    using "2.prems" by force
  ultimately show ?case
    using "2.IH" by (simp add: players_ok_def spawn_ok_in_bounds)
qed

lemma keys_move_players: "map fst (move_players dt ps) = map fst ps"
  by (induction ps) (auto simp: move_players_def)

lemma clamp_range: "a \<le> b \<Longrightarrow> a \<le> clamp v a b \<and> clamp v a b \<le> b"
  by (simp add: clamp_def)

lemma in_bounds_integrate: "in_bounds (integrate dt p)"
  by (simp add: integrate_def Let_def in_bounds_def clamp_def config_defs)

lemma score_integrate: "score (integrate dt p) = score p"
  by (simp add: integrate_def Let_def)

lemma players_ok_move_players:
  "players_ok ps \<Longrightarrow> players_ok (move_players dt ps)"
  by (induction ps) (auto simp: players_ok_def move_players_def in_bounds_integrate score_integrate)

lemma keys_collect: "map fst (fst (collect c ps)) = map fst ps"
  by (induction c ps rule: collect.induct) (auto split: prod.splits)

lemma players_ok_collect: "players_ok ps \<Longrightarrow> players_ok (fst (collect c ps))"
  by (induction c ps rule: collect.induct) (auto simp: players_ok_def in_bounds_def split: prod.splits)

lemma update_fresh_append:
  "\<forall>k \<in> set (map fst al). k \<noteq> pid \<Longrightarrow> AList.update pid v al = al @ [(pid, v)]"
  by (induction al) auto


lemma sorted_snoc:
  assumes "sorted_wrt (<) ks" "\<forall>k \<in> set ks. k < (pid::int)"
  shows "sorted_wrt (<) (ks @ [pid])"
  using assms by (simp add: sorted_wrt_append)

lemma keys_delete: "map fst (AList.delete pid al) = filter (\<lambda>k. k \<noteq> pid) (map fst al)"
  by (induction al) auto

lemma set_delete_subset: "set (AList.delete pid al) \<subseteq> set al"
  unfolding AList.delete_eq by (rule filter_is_subset)

lemma world_ok_init: "world_ok init_world"
  by (simp add: world_ok_def keys_ok_def players_ok_def coin_ok_def init_world_def)

lemma players_register:
  assumes "keys_ok w"
  shows "players (snd (handle_register sock rx ry w)) =
         players w @ [(next_pid w, \<lparr>x = rx, y = ry, ws = sock, vx = 0, vy = 0, score = 0,
                                    color = get_color_for_pid (next_pid w)\<rparr>)]"
proof -
  have "\<forall>k \<in> set (map fst (players w)). k < next_pid w"
    using assms unfolding keys_ok_def list_all_iff by blast
  then have "\<forall>k \<in> set (map fst (players w)). k \<noteq> next_pid w"
    by blast
  then show ?thesis
    by (simp add: handle_register_def Let_def update_fresh_append)
qed

lemma next_pid_register: "next_pid (snd (handle_register sock rx ry w)) = next_pid w + 1"
  by (simp add: handle_register_def Let_def)

lemma keys_ok_register:
  assumes "keys_ok w"
  shows "keys_ok (snd (handle_register sock rx ry w))"
proof -
  let ?ks = "map fst (players w)"
  have lt: "\<forall>k \<in> set ?ks. 1 \<le> k \<and> k < next_pid w" and one: "1 \<le> next_pid w"
    and srt: "sorted_wrt (<) ?ks"
    using assms unfolding keys_ok_def list_all_iff by blast+
  have ks: "map fst (players (snd (handle_register sock rx ry w))) = ?ks @ [next_pid w]"
    by (simp add: players_register [OF assms])
  have "sorted_wrt (<) (?ks @ [next_pid w])"
    using srt lt by (intro sorted_snoc) blast+
  moreover have "\<forall>k \<in> set (?ks @ [next_pid w]). 1 \<le> k \<and> k < next_pid w + 1"
    using lt one by fastforce
  ultimately show ?thesis
    unfolding keys_ok_def list_all_iff ks next_pid_register using one by simp
qed

lemma world_ok_register:
  assumes "world_ok w" "spawn_ok (rx, ry)"
  shows "world_ok (snd (handle_register sock rx ry w))"
proof -
  have k: "keys_ok w" and p: "players_ok (players w)" and c: "coin_ok w"
    using assms(1) by (simp_all add: world_ok_def)
  let ?p = "\<lparr>x = rx, y = ry, ws = sock, vx = 0, vy = 0, score = 0,
             color = get_color_for_pid (next_pid w)\<rparr>"
  have "in_bounds ?p"
    using assms(2) by (simp add: spawn_ok_in_bounds)
  then have "players_ok (players (snd (handle_register sock rx ry w)))"
    using p by (simp add: players_register [OF k] players_ok_def)
  moreover have "coin_ok (snd (handle_register sock rx ry w))"
    using c by (simp add: coin_ok_def handle_register_def Let_def)
  ultimately show ?thesis
    using keys_ok_register [OF k] by (simp add: world_ok_def)
qed

lemma rnd_ok_all: "rnd_ok rnd w \<Longrightarrow> \<forall>j < length (players w). spawn_ok (rnd (0 + j))"
  by (simp add: rnd_ok_def list_all_iff)

lemma world_ok_start_round:
  assumes "world_ok w" "rnd_ok rnd w"
  shows "world_ok (start_round now rnd w)"
  using assms players_ok_reset_players [OF rnd_ok_all [OF assms(2)]]
  by (simp add: world_ok_def keys_ok_def coin_ok_def start_round_def keys_reset_players)

lemma world_ok_end_round: "world_ok w \<Longrightarrow> world_ok (end_round now w)"
  by (simp add: world_ok_def keys_ok_def coin_ok_def end_round_def)

lemma world_ok_autostart:
  "world_ok w \<Longrightarrow> rnd_ok rnd w \<Longrightarrow> world_ok (handle_autostart now rnd w)"
  by (simp add: handle_autostart_def world_ok_start_round)

lemma world_ok_finally:
  assumes "world_ok w"
  shows "world_ok (handle_finally pid w)"
proof -
  have k: "keys_ok w" and p: "players_ok (players w)" and c: "coin_ok w"
    using assms by (simp_all add: world_ok_def)
  have "keys_ok (handle_finally pid w)"
    using k by (auto simp: keys_ok_def handle_finally_def keys_delete sorted_wrt_filter list_all_iff)
  moreover have "players_ok (players (handle_finally pid w))"
    using p set_delete_subset [of pid "players w"]
    unfolding players_ok_def list_all_iff handle_finally_def by auto
  moreover have "coin_ok (handle_finally pid w)"
    using c by (simp add: coin_ok_def handle_finally_def)
  ultimately show ?thesis
    by (simp add: world_ok_def)
qed

lemma world_ok_spawn_coin: "world_ok w \<Longrightarrow> world_ok (spawn_coin rx ry w)"
  by (simp add: world_ok_def keys_ok_def coin_ok_def spawn_coin_def)

lemma keys_write_velocity: "map fst (write_velocity pid a b ps) = map fst ps"
  by (induction ps) (auto simp: write_velocity_def)

lemma players_ok_write_velocity:
  "players_ok ps \<Longrightarrow> players_ok (write_velocity pid a b ps)"
  by (induction ps) (auto simp: players_ok_def write_velocity_def in_bounds_def)

lemma world_ok_write_velocity:
  "world_ok w \<Longrightarrow> world_ok (w\<lparr>players := write_velocity pid a b (players w)\<rparr>)"
  by (simp add: world_ok_def keys_ok_def coin_ok_def keys_write_velocity players_ok_write_velocity)

lemma world_ok_apply_input:
  "world_ok w \<Longrightarrow> apply_input pid data w = Inr w' \<Longrightarrow> world_ok w'"
  by (auto simp: apply_input_def Let_def world_ok_write_velocity split: if_splits json.splits)

lemma world_ok_moved:
  "world_ok w \<Longrightarrow> world_ok (w\<lparr>players := move_players dt (players w)\<rparr>)"
  by (simp add: world_ok_def keys_ok_def coin_ok_def keys_move_players players_ok_move_players)

lemma world_ok_collected:
  assumes "world_ok w" "game_active w"
  shows "world_ok (w\<lparr>players := fst (collect c (players w)), coin := snd (collect c (players w))\<rparr>)"
  using assms
  by (simp add: world_ok_def keys_ok_def coin_ok_def keys_collect players_ok_collect)

lemma world_ok_game_loop:
  assumes "world_ok w" "rnd_ok rnd w"
  shows "world_ok (game_loop dt t_check t_set rnd w)"
proof (cases "game_active w")
  case False
  then show ?thesis
    using assms by (simp add: game_loop_def world_ok_start_round)
next
  case True
  let ?w1 = "w\<lparr>players := move_players dt (players w)\<rparr>"
  have w1: "world_ok ?w1" "game_active ?w1"
    using assms(1) True by (simp_all add: world_ok_moved)
  let ?w2 = "case coin ?w1 of None \<Rightarrow> ?w1
             | Some c \<Rightarrow> (case collect c (players ?w1) of (ps, c') \<Rightarrow> ?w1\<lparr>players := ps, coin := c'\<rparr>)"
  have w2: "world_ok ?w2"
  proof (cases "coin ?w1")
    case None
    then show ?thesis using w1 by simp
  next
    case (Some c)
    then show ?thesis
      using world_ok_collected [OF w1, of c] by (simp add: case_prod_unfold)
  qed
  show ?thesis
    using w2 True world_ok_end_round [OF w2]
    by (simp add: game_loop_def Let_def)
qed

lemma world_ok_step: "world_ok w \<Longrightarrow> event_ok e w \<Longrightarrow> world_ok (step e w)"
proof (cases e)
  case (Input pid data)
  assume "world_ok w"
  then show ?thesis
    using Input world_ok_apply_input [of w pid data]
    by (cases "apply_input pid data w") auto
qed (simp_all add: world_ok_register world_ok_autostart world_ok_finally world_ok_game_loop
      world_ok_spawn_coin)

lemma reachable_world_ok: "reachable w \<Longrightarrow> world_ok w"
  by (induction rule: reachable.induct) (simp_all add: world_ok_init world_ok_step)

lemma run_reachable: "reachable w \<Longrightarrow> run_ok es w \<Longrightarrow> reachable (run es w)"
  by (induction es arbitrary: w) (auto intro: reachable_step)


section \<open>Evaluating concrete runs\<close>

lemma demo_rnd_ok: "rnd_ok demo_rnd w"
  by (simp add: rnd_ok_def list_all_iff demo_rnd_def spawn_ok_def uniform_ok_def config_defs)



lemmas eval_defs =
  init_world_def handle_register_def handle_autostart_def handle_finally_def start_round_def
  end_round_def spawn_coin_def demo_rnd_def demo_right_def apply_input_def has_player_def
  get_flag_def axis_def hypot_def write_velocity_def game_loop_def move_players_def
  integrate_def clamp_def config_defs get_color_for_pid_def Let_def rnd_ok_def spawn_ok_def
  uniform_ok_def touches_def

lemma demo_walk_ok: "run_ok demo_walk init_world"
  by (simp add: demo_walk_def eval_defs)

lemma demo_walk_players:
  "players (run demo_walk init_world) =
     [(1, \<lparr>x = 785, y = 100, ws = 0, vx = 1, vy = 0, score = 0, color = ''#2b85f0''\<rparr>)]"
  by (simp add: demo_walk_def eval_defs)

lemma demo_start_world:
  "run demo_start init_world =
     \<lparr>players = [(1, \<lparr>x = 100, y = 100, ws = 0, vx = 0, vy = 0, score = 0, color = ''#2b85f0''\<rparr>)],
      next_pid = 2, coin = None, game_active = True, game_end_time = 180,
      intermission_end = 0, last_winner = None\<rparr>"
  by (simp add: demo_start_def eval_defs)

section \<open>Identifiers\<close>

lemma next_pid_start_round: "next_pid (start_round now rnd w) = next_pid w"
  by (simp add: start_round_def)

lemma next_pid_end_round: "next_pid (end_round now w) = next_pid w"
  by (simp add: end_round_def)

lemma next_pid_apply_input: "apply_input pid data w = Inr w' \<Longrightarrow> next_pid w' = next_pid w"
  by (auto simp: apply_input_def Let_def split: if_splits json.splits)

lemma next_pid_game_loop: "next_pid (game_loop dt t_check t_set rnd w) = next_pid w"
  by (simp add: game_loop_def Let_def next_pid_start_round next_pid_end_round
      split: option.split prod.split)

lemma next_pid_step:
  "next_pid (step e w) = (case e of Connect sock rx ry \<Rightarrow> next_pid w + 1 | _ \<Rightarrow> next_pid w)"
proof (cases e)
  case (Input pid data)
  then show ?thesis
    using next_pid_apply_input [of pid data w]
    by (cases "apply_input pid data w") simp_all
qed (simp_all add: next_pid_register handle_autostart_def next_pid_start_round
      handle_finally_def next_pid_game_loop spawn_coin_def)

lemma issued_from:
  "issued es w = [next_pid w .. next_pid w + int (connects es) - 1]"
proof (induction es arbitrary: w)
  case Nil
  then show ?case by simp
next
  case (Cons e es)
  show ?case
  proof (cases e)
    case (Connect sock rx ry)
    have "issued (e # es) w = next_pid w # issued es (step e w)"
      by (simp add: Connect handle_register_def Let_def)
    also have "\<dots> = next_pid w # [next_pid w + 1 .. next_pid w + 1 + int (connects es) - 1]"
      by (simp add: Cons.IH Connect next_pid_register)
    also have "\<dots> = [next_pid w .. next_pid w + int (connects (e # es)) - 1]"
      by (simp add: Connect upto_rec1 [of "next_pid w"])
    finally show ?thesis .
  qed (simp_all add: Cons.IH next_pid_step del: step.simps)
qed

text \<open>
  C3. Whatever the server goes through (registrations, disconnections, inputs, ticks, coin
  spawns, in any order), the identifiers it issues are 1, 2, 3, ... in this order: a
  strictly increasing sequence of integers that starts at 1 and has no repetition.
\<close>

theorem identifiers_issued:
  "issued es init_world = [1 .. int (connects es)] \<and>
   sorted_wrt (<) (issued es init_world) \<and> distinct (issued es init_world)"
proof -
  have "issued es init_world = [1 .. int (connects es)]"
    by (simp add: issued_from init_world_def)
  then show ?thesis
    by simp
qed

section \<open>Colours\<close>

lemma demo_seven_ok: "run_ok demo_seven init_world"
  by (simp add: demo_seven_def upt_rec eval_defs)

lemma demo_seven_colors:
  "map (\<lambda>q. (fst q, color (snd q))) (players (run demo_seven init_world)) =
     [(1, ''#2b85f0''), (2, ''#ff4d4f''), (3, ''#2bbf57''), (4, ''#f07f2b''),
      (5, ''#a02bf0''), (6, ''#f02b85''), (7, ''#2b85f0'')]"
  by (simp add: demo_seven_def upt_rec eval_defs)

text \<open>
  C10. The colour of an identifier is the colour of the identifier six places further: the
  palette has six entries and is used cyclically. So the colour is a function of the
  identifier, and it is not unique: after seven registrations the players 1 and 7 are both
  in the registry with the same colour.
\<close>

theorem color_period:
  "get_color_for_pid (pid + 6) = get_color_for_pid pid \<and>
   reachable (run demo_seven init_world) \<and>
   map (\<lambda>q. (fst q, color (snd q))) (players (run demo_seven init_world)) =
     [(1, ''#2b85f0''), (2, ''#ff4d4f''), (3, ''#2bbf57''), (4, ''#f07f2b''),
      (5, ''#a02bf0''), (6, ''#f02b85''), (7, ''#2b85f0'')]"
proof -
  have "(5 + pid) mod 6 = (pid - 1) mod 6"
    by presburger
  then have "get_color_for_pid (pid + 6) = get_color_for_pid pid"
    by (simp add: get_color_for_pid_def)
  moreover have "reachable (run demo_seven init_world)"
    by (rule run_reachable [OF reachable_init demo_seven_ok])
  ultimately show ?thesis
    using demo_seven_colors by blast
qed

section \<open>Round start\<close>

lemma vel_reset_players:
  "list_all (\<lambda>q. vx (snd q) = 0 \<and> vy (snd q) = 0) (reset_players rnd i ps)"
  by (induction rnd i ps rule: reset_players.induct) simp_all

text \<open>
  C9. After \<open>start_round\<close> every player in the registry has velocity (0, 0), and the
  registry holds the same identifiers as before.
\<close>

theorem start_round_zero_velocity:
  "list_all (\<lambda>q. vx (snd q) = 0 \<and> vy (snd q) = 0) (players (start_round now rnd w)) \<and>
   map fst (players (start_round now rnd w)) = map fst (players w)"
  by (simp add: start_round_def vel_reset_players keys_reset_players)

section \<open>Input for a player who has left\<close>

text \<open>
  C8. When the delay of \<open>apply_input\<close> is over and the player is no longer in the
  registry, the call returns without an exception and the state is what it was.
\<close>

theorem input_for_absent_player:
  "\<not> has_player pid w \<Longrightarrow> apply_input pid data w = Inr w \<and> step (Input pid data) w = w"
  by (simp add: apply_input_def)

theorem input_for_absent_player_witness:
  "\<not> has_player 2 (step (Connect 0 100 100) init_world) \<and>
   apply_input 2 demo_right (step (Connect 0 100 100) init_world)
     = Inr (step (Connect 0 100 100) init_world)"
proof -
  have h: "\<not> has_player 2 (step (Connect 0 100 100) init_world)"
    by (simp add: has_player_def handle_register_def init_world_def)
  show ?thesis
    using h input_for_absent_player [OF h, of demo_right] by simp
qed

section \<open>Positions\<close>

text \<open>
  C2. In every reachable state every player is on the map, at least one radius away from
  each border. Reachable states include those right after a registration, after a round
  start and after every turn of the game loop.
\<close>

theorem positions_in_bounds:
  assumes "reachable w" "(k, p) \<in> set (players w)"
  shows "PLAYER_R \<le> x p \<and> x p \<le> MAP_W - PLAYER_R \<and> PLAYER_R \<le> y p \<and> y p \<le> MAP_H - PLAYER_R"
proof -
  have "players_ok (players w)"
    using reachable_world_ok [OF assms(1)] by (simp add: world_ok_def)
  then have "in_bounds p"
    using assms(2) unfolding players_ok_def list_all_iff by force
  then show ?thesis
    by (simp add: in_bounds_def)
qed

theorem positions_in_bounds_witness:
  "reachable (run demo_walk init_world) \<and>
   (1, \<lparr>x = 785, y = 100, ws = 0, vx = 1, vy = 0, score = 0, color = ''#2b85f0''\<rparr>)
     \<in> set (players (run demo_walk init_world)) \<and>
   PLAYER_R \<le> (785::real) \<and> (785::real) \<le> MAP_W - PLAYER_R \<and>
   PLAYER_R \<le> (100::real) \<and> (100::real) \<le> MAP_H - PLAYER_R"
proof -
  let ?p = "\<lparr>x = 785, y = 100, ws = 0, vx = 1, vy = 0, score = 0, color = ''#2b85f0''\<rparr>"
  have r: "reachable (run demo_walk init_world)"
    by (rule run_reachable [OF reachable_init demo_walk_ok])
  have m: "(1, ?p) \<in> set (players (run demo_walk init_world))"
    by (simp add: demo_walk_players)
  show ?thesis
    using r m positions_in_bounds [OF r m] by simp
qed

section \<open>The coin\<close>

lemma coin_collect: "snd (collect c ps) = None \<or> snd (collect c ps) = Some c"
  by (induction c ps rule: collect.induct) (auto split: prod.splits)

lemma coin_game_loop:
  "coin (game_loop dt t_check t_set rnd w) = None \<or> coin (game_loop dt t_check t_set rnd w) = coin w"
proof (cases "coin w")
  case None
  then show ?thesis
    by (simp add: game_loop_def Let_def start_round_def end_round_def)
next
  case (Some c)
  then show ?thesis
    using coin_collect [of c "move_players dt (players w)"]
    by (auto simp: game_loop_def Let_def start_round_def end_round_def split: prod.splits)
qed

lemma coin_apply_input: "apply_input pid data w = Inr w' \<Longrightarrow> coin w' = coin w"
  by (auto simp: apply_input_def Let_def split: if_splits json.splits)

lemma coin_step:
  "coin (step e w) = coin w \<or> coin (step e w) = None \<or>
   ((\<exists>rx ry. e = Spawn rx ry \<and> coin (step e w) = Some \<lparr>x = rx, y = ry\<rparr>) \<and>
     game_active w \<and> coin w = None)"
proof (cases e)
  case (Input pid data)
  then show ?thesis
    using coin_apply_input [of pid data w]
    by (cases "apply_input pid data w") simp_all
next
  case (Tick dt t_check t_set rnd)
  then show ?thesis
    using coin_game_loop [of dt t_check t_set rnd w] by auto
qed (auto simp: handle_register_def Let_def handle_autostart_def start_round_def
      handle_finally_def spawn_coin_def)

text \<open>
  C4. There is never more than one coin. A step that changes the coin either removes it or
  is the spawner creating one while the round is active and no coin exists; the spawner
  does nothing otherwise; the collision loop keeps the coin or removes it; \<open>start_round\<close>
  and \<open>end_round\<close> remove it.
\<close>

theorem at_most_one_coin:
  "coin_count w \<le> 1 \<and>
   (coin (step e w) \<noteq> coin w \<longrightarrow>
      coin (step e w) = None \<or>
      ((\<exists>rx ry. e = Spawn rx ry \<and> coin (step e w) = Some \<lparr>x = rx, y = ry\<rparr>) \<and>
        game_active w \<and> coin w = None)) \<and>
   (\<not> (game_active w \<and> coin w = None) \<longrightarrow> spawn_coin rx ry w = w) \<and>
   (snd (collect c ps) = None \<or> snd (collect c ps) = Some c) \<and>
   coin (start_round now rnd w) = None \<and>
   coin (end_round now w) = None"
proof -
  have "coin_count w \<le> 1"
    by (simp add: coin_count_def split: option.split)
  moreover have "\<not> (game_active w \<and> coin w = None) \<longrightarrow> spawn_coin rx ry w = w"
    by (simp add: spawn_coin_def)
  moreover have "coin (start_round now rnd w) = None" "coin (end_round now w) = None"
    by (simp_all add: start_round_def end_round_def)
  ultimately show ?thesis
    using coin_step [of e w] coin_collect [of c ps] by blast
qed


theorem at_most_one_coin_witness:
  "coin (step (Spawn 100 100) (run demo_start init_world)) \<noteq> coin (run demo_start init_world) \<and>
   game_active (run demo_start init_world) \<and>
   coin (run demo_start init_world) = None \<and>
   coin (step (Spawn 100 100) (run demo_start init_world)) = Some \<lparr>x = 100, y = 100\<rparr> \<and>
   spawn_coin 50 50 (step (Spawn 100 100) (run demo_start init_world))
     = step (Spawn 100 100) (run demo_start init_world)"
proof -
  let ?w = "run demo_start init_world"
  let ?w2 = "step (Spawn 100 100) ?w"
  have c: "coin ?w2 \<noteq> coin ?w" and d: "coin ?w2 = Some \<lparr>x = 100, y = 100\<rparr>"
    by (simp_all add: demo_start_world spawn_coin_def)
  have n: "\<not> (game_active ?w2 \<and> coin ?w2 = None)"
    by (simp add: demo_start_world spawn_coin_def)
  have "coin ?w2 = None \<or> (game_active ?w \<and> coin ?w = None)"
    using c at_most_one_coin [where w = ?w and e = "Spawn 100 100"] by blast
  then have g: "game_active ?w \<and> coin ?w = None"
    using d by simp
  have s: "spawn_coin 50 50 ?w2 = ?w2"
    using n at_most_one_coin [where w = ?w2 and rx = 50 and ry = 50] by blast
  show ?thesis
    using c d g s by blast
qed

section \<open>Velocity written by an input\<close>

lemma hypot_zero_iff: "hypot a b = 0 \<longleftrightarrow> a = 0 \<and> b = 0"
  by (simp add: hypot_def)

lemma hypot_normalised:
  assumes "hypot a b \<noteq> 0"
  shows "hypot (a / hypot a b) (b / hypot a b) = 1"
proof -
  let ?d = "hypot a b"
  have d2: "?d\<^sup>2 = a\<^sup>2 + b\<^sup>2"
    by (simp add: hypot_def)
  have "(a / ?d)\<^sup>2 + (b / ?d)\<^sup>2 = (a\<^sup>2 + b\<^sup>2) / ?d\<^sup>2"
    by (simp add: power_divide add_divide_distrib)
  also have "\<dots> = 1"
    using assms d2 by (simp add: hypot_zero_iff)
  finally show ?thesis
    by (simp add: hypot_def [of "a / ?d"])
qed

lemma axis_cases: "axis l r = -1 \<or> axis l r = 0 \<or> axis l r = 1"
  by (simp add: axis_def)

lemma velocity_written:
  "(k, p) \<in> set (write_velocity pid a b ps) \<Longrightarrow> k = pid \<Longrightarrow> vx p = a \<and> vy p = b"
  by (induction ps) (auto simp: write_velocity_def split: if_splits)

lemma has_player_write_velocity:
  "has_player pid (w\<lparr>players := write_velocity pid a b (players w)\<rparr>) = has_player pid w"
  by (simp add: has_player_def keys_write_velocity flip: set_map)

text \<open>
  C5. For a player in the registry and any dictionary of keys, \<open>apply_input\<close> returns
  without an exception, and the velocity it writes to that player has length 0 when both
  axis sums are zero (no key held, or opposite keys cancel on both axes) and length 1
  otherwise. Lengths are taken over the real numbers.
\<close>

theorem input_velocity_magnitude:
  assumes "has_player pid w"
  shows "\<exists>w'. apply_input pid (JObj m) w = Inr w' \<and> has_player pid w' \<and>
           (\<forall>(k, p) \<in> set (players w'). k = pid \<longrightarrow>
              hypot (vx p) (vy p) =
                (if axis (get_flag m ''left'') (get_flag m ''right'') = 0 \<and>
                    axis (get_flag m ''up'') (get_flag m ''down'') = 0 then 0 else 1))"
proof -
  let ?ax = "axis (get_flag m ''left'') (get_flag m ''right'')"
  let ?ay = "axis (get_flag m ''up'') (get_flag m ''down'')"
  let ?d = "hypot (real_of_int ?ax) (real_of_int ?ay)"
  show ?thesis
  proof (cases "?ax = 0 \<and> ?ay = 0")
    case True
    let ?w' = "w\<lparr>players := write_velocity pid 0 0 (players w)\<rparr>"
    have "apply_input pid (JObj m) w = Inr ?w'"
      using assms True by (simp add: apply_input_def)
    moreover have "has_player pid ?w'"
      using assms by (simp add: has_player_write_velocity)
    moreover have "\<forall>(k, p) \<in> set (players ?w'). k = pid \<longrightarrow> hypot (vx p) (vy p) = 0"
      using velocity_written [of _ _ pid 0 0 "players w"] by (auto simp: hypot_zero_iff)
    ultimately show ?thesis
      using True by auto
  next
    case False
    then have nz: "?d \<noteq> 0"
      by (simp add: hypot_zero_iff)
    let ?w' = "w\<lparr>players := write_velocity pid (real_of_int ?ax / ?d) (real_of_int ?ay / ?d) (players w)\<rparr>"
    have "apply_input pid (JObj m) w = Inr ?w'"
      using assms False nz by (auto simp: apply_input_def Let_def)
    moreover have "has_player pid ?w'"
      using assms by (simp add: has_player_write_velocity)
    moreover have "\<forall>(k, p) \<in> set (players ?w'). k = pid \<longrightarrow> hypot (vx p) (vy p) = 1"
      using velocity_written [of _ _ pid "real_of_int ?ax / ?d" "real_of_int ?ay / ?d" "players w"]
        hypot_normalised [OF nz] by auto
    ultimately show ?thesis
      using False by auto
  qed
qed

lemma has_player_demo: "has_player 1 (step (Connect 0 100 100) init_world)"
  by (simp add: has_player_def handle_register_def init_world_def)

theorem input_velocity_magnitude_witness:
  "has_player 1 (step (Connect 0 100 100) init_world) \<and>
   (\<exists>w'. apply_input 1 (JObj demo_diagonal) (step (Connect 0 100 100) init_world) = Inr w' \<and>
      has_player 1 w' \<and>
      (\<forall>(k, p) \<in> set (players w'). k = 1 \<longrightarrow> hypot (vx p) (vy p) = 1))"
  using has_player_demo input_velocity_magnitude [OF has_player_demo, of demo_diagonal]
  by (simp add: demo_diagonal_def get_flag_def axis_def)

section \<open>The winner of a round\<close>

lemma best_player_keep:
  "\<forall>q \<in> set ps. score (snd q) \<le> s \<Longrightarrow> best_player ps (b, s) = (b, s)"
  by (induction ps) auto

lemma best_player_split:
  "\<exists>q \<in> set ps. s < score (snd q) \<Longrightarrow>
   \<exists>ps1 k p ps2. ps = ps1 @ (k, p) # ps2 \<and> best_player ps (b, s) = (Some k, score p) \<and>
     s < score p \<and> (\<forall>q \<in> set ps1. score (snd q) < score p) \<and>
     (\<forall>q \<in> set ps2. score (snd q) \<le> score p)"
proof (induction ps arbitrary: b s)
  case Nil
  then show ?case by simp
next
  case (Cons a ps)
  obtain k0 p0 where a: "a = (k0, p0)"
    by (cases a)
  show ?case
  proof (cases "s < score p0")
    case True
    show ?thesis
    proof (cases "\<exists>q \<in> set ps. score p0 < score (snd q)")
      case True
      from Cons.IH [OF True, of "Some k0"] obtain ps1 k p ps2 where
        sp: "ps = ps1 @ (k, p) # ps2"
        and bp: "best_player ps (Some k0, score p0) = (Some k, score p)"
        and lt: "score p0 < score p"
        and before: "\<forall>q \<in> set ps1. score (snd q) < score p"
        and after: "\<forall>q \<in> set ps2. score (snd q) \<le> score p"
        by blast
      have "a # ps = (a # ps1) @ (k, p) # ps2"
        by (simp add: sp)
      moreover have "best_player (a # ps) (b, s) = (Some k, score p)"
        using \<open>s < score p0\<close> bp by (simp add: a)
      moreover have "s < score p"
        using \<open>s < score p0\<close> lt by simp
      moreover have "\<forall>q \<in> set (a # ps1). score (snd q) < score p"
        using before lt by (simp add: a)
      ultimately show ?thesis
        using after by blast
    next
      case False
      then have le: "\<forall>q \<in> set ps. score (snd q) \<le> score p0"
        by force
      have "a # ps = [] @ (k0, p0) # ps"
        by (simp add: a)
      moreover have "best_player (a # ps) (b, s) = (Some k0, score p0)"
        using \<open>s < score p0\<close> best_player_keep [OF le] by (simp add: a)
      moreover have "\<forall>q \<in> set []. score (snd q) < score p0"
        by simp
      ultimately show ?thesis
        using \<open>s < score p0\<close> le by blast
    qed
  next
    case False
    then have ex: "\<exists>q \<in> set ps. s < score (snd q)"
      using Cons.prems by (auto simp: a)
    from Cons.IH [OF ex, of b] obtain ps1 k p ps2 where
      sp: "ps = ps1 @ (k, p) # ps2"
      and bp: "best_player ps (b, s) = (Some k, score p)"
      and lt: "s < score p"
      and before: "\<forall>q \<in> set ps1. score (snd q) < score p"
      and after: "\<forall>q \<in> set ps2. score (snd q) \<le> score p"
      by blast
    have "a # ps = (a # ps1) @ (k, p) # ps2"
      by (simp add: sp)
    moreover have "best_player (a # ps) (b, s) = (Some k, score p)"
      using False bp by (simp add: a)
    moreover have "\<forall>q \<in> set (a # ps1). score (snd q) < score p"
      using before lt False by (simp add: a)
    ultimately show ?thesis
      using lt after by blast
  qed
qed

text \<open>
  C1. \<open>end_round\<close> on an empty registry leaves \<open>last_winner\<close> unset. In a reachable
  state with at least one player it sets \<open>last_winner\<close> to the identifier of a player of
  the registry whose score is the maximum: every player before the winner in registry order
  has a strictly smaller score, no player after has a larger one, and among the players with
  the winner's score the winner has the lowest identifier.
\<close>

theorem round_winner:
  "(players w = [] \<longrightarrow> last_winner (end_round now w) = None) \<and>
   (reachable w \<and> players w \<noteq> [] \<longrightarrow>
      (\<exists>ps1 pid p ps2. players w = ps1 @ (pid, p) # ps2 \<and>
         last_winner (end_round now w) = Some pid \<and>
         (\<forall>q \<in> set ps1. score (snd q) < score p) \<and>
         (\<forall>q \<in> set ps2. score (snd q) \<le> score p) \<and>
         (\<forall>q \<in> set (players w). score (snd q) = score p \<longrightarrow> pid \<le> fst q)))"
proof (intro conjI impI)
  assume "players w = []"
  then show "last_winner (end_round now w) = None"
    by (simp add: end_round_def)
next
  assume rn: "reachable w \<and> players w \<noteq> []"
  then have ok: "world_ok w"
    by (simp add: reachable_world_ok)
  have nonneg: "\<forall>q \<in> set (players w). 0 \<le> score (snd q)"
    using ok unfolding world_ok_def players_ok_def list_all_iff by blast
  have srt: "sorted_wrt (<) (map fst (players w))"
    using ok by (simp add: world_ok_def keys_ok_def)
  obtain q0 where "q0 \<in> set (players w)"
    using rn by (cases "players w") auto
  then have "\<exists>q \<in> set (players w). -1 < score (snd q)"
    using nonneg by force
  from best_player_split [OF this, of None] obtain ps1 pid p ps2 where
    sp: "players w = ps1 @ (pid, p) # ps2"
    and bp: "best_player (players w) (None, -1) = (Some pid, score p)"
    and before: "\<forall>q \<in> set ps1. score (snd q) < score p"
    and after: "\<forall>q \<in> set ps2. score (snd q) \<le> score p"
    by blast
  have lw: "last_winner (end_round now w) = Some pid"
    using rn bp by (simp add: end_round_def)
  have later: "\<forall>q \<in> set ps2. pid < fst q"
    using srt by (simp add: sp sorted_wrt_append)
  have "\<forall>q \<in> set (players w). score (snd q) = score p \<longrightarrow> pid \<le> fst q"
  proof (intro ballI impI)
    fix q assume q: "q \<in> set (players w)" and tie: "score (snd q) = score p"
    then have "q = (pid, p) \<or> q \<in> set ps2"
      using before by (auto simp: sp)
    then show "pid \<le> fst q"
      using later by auto
  qed
  then show "\<exists>ps1 pid p ps2. players w = ps1 @ (pid, p) # ps2 \<and>
         last_winner (end_round now w) = Some pid \<and>
         (\<forall>q \<in> set ps1. score (snd q) < score p) \<and>
         (\<forall>q \<in> set ps2. score (snd q) \<le> score p) \<and>
         (\<forall>q \<in> set (players w). score (snd q) = score p \<longrightarrow> pid \<le> fst q)"
    using sp lw before after by blast
qed

lemma touches_iff:
  "touches c p \<longleftrightarrow> (x p - x c)\<^sup>2 + (y p - y c)\<^sup>2 \<le> (PLAYER_R + COIN_R)\<^sup>2"
proof -
  have "PLAYER_R + COIN_R = sqrt ((PLAYER_R + COIN_R)\<^sup>2)"
    by (simp add: config_defs)
  then have "touches c p \<longleftrightarrow>
      sqrt ((x p - x c)\<^sup>2 + (y p - y c)\<^sup>2) \<le> sqrt ((PLAYER_R + COIN_R)\<^sup>2)"
    by (simp add: touches_def hypot_def)
  then show ?thesis
    by (simp only: real_sqrt_le_iff)
qed

lemmas run_defs =
  init_world_def handle_register_def handle_autostart_def handle_finally_def start_round_def
  end_round_def spawn_coin_def demo_rnd_def demo_right_def apply_input_def has_player_def
  get_flag_def axis_def hypot_def write_velocity_def game_loop_def move_players_def
  integrate_def clamp_def config_defs get_color_for_pid_def Let_def rnd_ok_def spawn_ok_def
  uniform_ok_def touches_iff

lemma demo_tie_ok: "run_ok demo_tie init_world"
  by (simp add: demo_tie_def demo_two_def run_defs)

lemma demo_tie_players:
  "players (run demo_tie init_world) =
     [(1, \<lparr>x = 280, y = 100, ws = 0, vx = 1, vy = 0, score = 1, color = ''#2b85f0''\<rparr>),
      (2, \<lparr>x = 100, y = 100, ws = 1, vx = 0, vy = 0, score = 1, color = ''#ff4d4f''\<rparr>)]"
  by (simp add: demo_tie_def demo_two_def run_defs)

theorem round_winner_witness:
  "reachable (run demo_tie init_world) \<and> players (run demo_tie init_world) \<noteq> [] \<and>
   map (\<lambda>q. (fst q, score (snd q))) (players (run demo_tie init_world)) = [(1, 1), (2, 1)] \<and>
   last_winner (end_round 180 (run demo_tie init_world)) = Some 1"
proof -
  have r: "reachable (run demo_tie init_world)"
    by (rule run_reachable [OF reachable_init demo_tie_ok])
  have n: "players (run demo_tie init_world) \<noteq> []"
    by (simp add: demo_tie_players)
  from round_winner [of "run demo_tie init_world" 180] r n
  obtain ps1 pid p ps2 where
    sp: "players (run demo_tie init_world) = ps1 @ (pid, p) # ps2"
    and lw: "last_winner (end_round 180 (run demo_tie init_world)) = Some pid"
    and low: "\<forall>q \<in> set (players (run demo_tie init_world)). score (snd q) = score p \<longrightarrow> pid \<le> fst q"
    and before: "\<forall>q \<in> set ps1. score (snd q) < score p"
    and after: "\<forall>q \<in> set ps2. score (snd q) \<le> score p"
    by blast
  have "last_winner (end_round 180 (run demo_tie init_world)) = Some 1"
    by (simp add: end_round_def demo_tie_players)
  then show ?thesis
    using r n lw by (simp add: demo_tie_players)
qed

section \<open>Collecting the coin\<close>

lemma first_hit:
  "\<exists>q \<in> set ps. P q \<Longrightarrow> \<exists>i < length ps. P (ps ! i) \<and> (\<forall>j < i. \<not> P (ps ! j))"
proof (induction ps)
  case Nil
  then show ?case by simp
next
  case (Cons a ps)
  show ?case
  proof (cases "P a")
    case True
    then have "0 < length (a # ps) \<and> P ((a # ps) ! 0) \<and> (\<forall>j < 0. \<not> P ((a # ps) ! j))"
      by simp
    then show ?thesis by blast
  next
    case False
    then have "\<exists>q \<in> set ps. P q"
      using Cons.prems by auto
    from Cons.IH [OF this] obtain i where i: "i < length ps" "P (ps ! i)" "\<forall>j < i. \<not> P (ps ! j)"
      by blast
    have "\<forall>j < Suc i. \<not> P ((a # ps) ! j)"
      using False i(3) by (simp add: nth_Cons split: nat.split)
    then have "Suc i < length (a # ps) \<and> P ((a # ps) ! Suc i) \<and> (\<forall>j < Suc i. \<not> P ((a # ps) ! j))"
      using i by simp
    then show ?thesis by blast
  qed
qed

lemma collect_first:
  "i < length ps \<Longrightarrow> touches c (snd (ps ! i)) \<Longrightarrow> \<forall>j < i. \<not> touches c (snd (ps ! j)) \<Longrightarrow>
   collect c ps =
     (ps[i := (fst (ps ! i), (snd (ps ! i))\<lparr>score := score (snd (ps ! i)) + 1\<rparr>)], None)"
proof (induction ps arbitrary: i)
  case Nil
  then show ?case by simp
next
  case (Cons a ps)
  obtain k p where a: "a = (k, p)"
    by (cases a)
  show ?case
  proof (cases i)
    case 0
    then show ?thesis
      using Cons.prems by (simp add: a)
  next
    case (Suc i')
    have miss: "\<not> touches c p"
      using Cons.prems(3) Suc a by force
    have "\<forall>j < i'. \<not> touches c (snd (ps ! j))"
      using Cons.prems(3) Suc by force
    then have "collect c ps =
        (ps[i' := (fst (ps ! i'), (snd (ps ! i'))\<lparr>score := score (snd (ps ! i')) + 1\<rparr>)], None)"
      using Cons.prems Suc by (intro Cons.IH) simp_all
    then show ?thesis
      using miss by (simp add: a Suc)
  qed
qed

text \<open>
  C6. In a turn of the game loop with the round active and a coin present, if some player
  is within player radius plus coin radius of the coin after the players have moved, then
  the first such player in registry order gets one more point, every other entry of the
  registry is what the movement left, and the coin is gone.
\<close>

theorem first_toucher_scores:
  assumes "game_active w" "coin w = Some c"
    and "\<exists>q \<in> set (move_players dt (players w)). touches c (snd q)"
  shows "\<exists>i < length (move_players dt (players w)).
           touches c (snd (move_players dt (players w) ! i)) \<and>
           (\<forall>j < i. \<not> touches c (snd (move_players dt (players w) ! j))) \<and>
           players (game_loop dt t_check t_set rnd w) =
             (move_players dt (players w))
               [i := (fst (move_players dt (players w) ! i),
                      (snd (move_players dt (players w) ! i))
                        \<lparr>score := score (snd (move_players dt (players w) ! i)) + 1\<rparr>)] \<and>
           coin (game_loop dt t_check t_set rnd w) = None"
proof -
  let ?ps = "move_players dt (players w)"
  from first_hit [of ?ps "\<lambda>q. touches c (snd q)", OF assms(3)] obtain i where
    i: "i < length ?ps" "touches c (snd (?ps ! i))" "\<forall>j < i. \<not> touches c (snd (?ps ! j))"
    by blast
  let ?ps' = "?ps[i := (fst (?ps ! i), (snd (?ps ! i))\<lparr>score := score (snd (?ps ! i)) + 1\<rparr>)]"
  have col: "collect c ?ps = (?ps', None)"
    using i by (rule collect_first)
  have "players (game_loop dt t_check t_set rnd w) = ?ps'"
    using assms(1,2) col by (simp add: game_loop_def Let_def end_round_def)
  moreover have "coin (game_loop dt t_check t_set rnd w) = None"
    using assms(1,2) col by (simp add: game_loop_def Let_def end_round_def)
  ultimately show ?thesis
    using i by blast
qed

lemma demo_coin_world:
  "run demo_coin init_world =
     \<lparr>players =
        [(1, \<lparr>x = 100, y = 100, ws = 0, vx = 0, vy = 0, score = 0, color = ''#2b85f0''\<rparr>),
         (2, \<lparr>x = 100, y = 100, ws = 1, vx = 0, vy = 0, score = 0, color = ''#ff4d4f''\<rparr>)],
      next_pid = 3, coin = Some \<lparr>x = 100, y = 100\<rparr>, game_active = True, game_end_time = 180,
      intermission_end = 0, last_winner = None\<rparr>"
  by (simp add: demo_coin_def demo_two_def run_defs)

theorem first_toucher_scores_witness:
  "game_active (run demo_coin init_world) \<and>
   coin (run demo_coin init_world) = Some \<lparr>x = 100, y = 100\<rparr> \<and>
   (\<exists>q \<in> set (move_players 0 (players (run demo_coin init_world))).
      touches \<lparr>x = 100, y = 100\<rparr> (snd q)) \<and>
   map (\<lambda>q. (fst q, score (snd q)))
     (players (game_loop 0 0 0 demo_rnd (run demo_coin init_world))) = [(1, 1), (2, 0)] \<and>
   coin (game_loop 0 0 0 demo_rnd (run demo_coin init_world)) = None"
proof -
  let ?w = "run demo_coin init_world"
  let ?c = "\<lparr>x = 100, y = 100\<rparr>"
  have g: "game_active ?w" and c: "coin ?w = Some ?c"
    by (simp_all add: demo_coin_world)
  have e: "\<exists>q \<in> set (move_players 0 (players ?w)). touches ?c (snd q)"
    unfolding demo_coin_world by (simp add: run_defs)
  have "coin (game_loop 0 0 0 demo_rnd ?w) = None"
    using first_toucher_scores [OF g c e, of 0 0 demo_rnd] by blast
  moreover have "map (\<lambda>q. (fst q, score (snd q))) (players (game_loop 0 0 0 demo_rnd ?w))
      = [(1, 1), (2, 0)]"
    unfolding demo_coin_world by (simp add: run_defs)
  ultimately show ?thesis
    using g c e by blast
qed

section \<open>From intermission to an active round\<close>

lemma demo_intermission_world:
  "run demo_intermission init_world =
     \<lparr>players = [(1, \<lparr>x = 100, y = 100, ws = 0, vx = 0, vy = 0, score = 0, color = ''#2b85f0''\<rparr>)],
      next_pid = 2, coin = None, game_active = False, game_end_time = 180,
      intermission_end = 190, last_winner = Some 1\<rparr>"
  by (simp add: demo_intermission_def run_defs)

lemma demo_intermission_ok: "run_ok demo_intermission init_world"
  by (simp add: demo_intermission_def run_defs)

text \<open>
  A round can start before the intermission deadline. One player registers and the round
  starts at time 0; the turn of the game loop at time 180 ends the round and sets the
  deadline to 190. A second player registers, and the handler's test after the welcome
  delay, at time 185, finds no active round and starts one.
\<close>

theorem early_start_counterexample:
  "run_ok demo_intermission init_world \<and>
   event_ok (Connect 1 100 100) (run demo_intermission init_world) \<and>
   \<not> game_active (step (Connect 1 100 100) (run demo_intermission init_world)) \<and>
   intermission_end (step (Connect 1 100 100) (run demo_intermission init_world)) = 190 \<and>
   event_ok (Welcomed 185 demo_rnd) (step (Connect 1 100 100) (run demo_intermission init_world)) \<and>
   game_active (step (Welcomed 185 demo_rnd)
     (step (Connect 1 100 100) (run demo_intermission init_world)))"
proof -
  let ?w = "run demo_intermission init_world"
  have "event_ok (Connect 1 100 100) ?w"
    by (simp add: spawn_ok_def uniform_ok_def config_defs)
  moreover have "\<not> game_active (step (Connect 1 100 100) ?w)"
    and "intermission_end (step (Connect 1 100 100) ?w) = 190"
    and "event_ok (Welcomed 185 demo_rnd) (step (Connect 1 100 100) ?w)"
    and "game_active (step (Welcomed 185 demo_rnd) (step (Connect 1 100 100) ?w))"
    unfolding demo_intermission_world by (simp_all add: run_defs)
  ultimately show ?thesis
    using demo_intermission_ok by blast
qed

lemma length_update_pos: "Suc 0 \<le> length (AList.update k v al)"
  by (cases al) simp_all

lemma game_active_apply_input:
  "apply_input pid data w = Inr w' \<Longrightarrow> game_active w' = game_active w"
  by (auto simp: apply_input_def Let_def split: if_splits json.splits)

lemma phase_step:
  assumes "\<not> game_active w" "game_active (step e w)"
  shows "(\<exists>dt t_check t_set rnd. e = Tick dt t_check t_set rnd \<and> intermission_end w \<noteq> 0 \<and>
            intermission_end w \<le> t_check \<and> players w \<noteq> []) \<or>
         (\<exists>now rnd. e = Welcomed now rnd \<and> players w \<noteq> [])"
proof (cases e)
  case (Connect sock rx ry)
  then show ?thesis
    using assms by (simp add: handle_register_def Let_def)
next
  case (Welcomed now rnd)
  then show ?thesis
    using assms by (cases "players w") (simp_all add: handle_autostart_def)
next
  case (Disconnect pid)
  then show ?thesis
    using assms by (simp add: handle_finally_def)
next
  case (Input pid data)
  then show ?thesis
    using assms game_active_apply_input [of pid data w]
    by (cases "apply_input pid data w") simp_all
next
  case (Tick dt t_check t_set rnd)
  then show ?thesis
    using assms by (simp add: game_loop_def split: if_splits)
next
  case (Spawn rx ry)
  then show ?thesis
    using assms by (simp add: spawn_coin_def)
qed

text \<open>
  C7, as the code has it. A step that takes the server from intermission to an active round
  is either a turn of the game loop, with a deadline set, the deadline reached and at least
  one player in the registry, or the handler's test after a welcome, with at least one
  player in the registry. With an empty registry a turn of the game loop in intermission
  changes nothing, so the deadline is not set again. A registration in intermission,
  followed by its welcome, starts a round whatever the deadline.
\<close>

theorem intermission_to_active:
  "(\<not> game_active w \<and> game_active (step e w) \<longrightarrow>
      (\<exists>dt t_check t_set rnd. e = Tick dt t_check t_set rnd \<and> intermission_end w \<noteq> 0 \<and>
         intermission_end w \<le> t_check \<and> players w \<noteq> []) \<or>
      (\<exists>now rnd. e = Welcomed now rnd \<and> players w \<noteq> [])) \<and>
   (\<not> game_active w \<and> players w = [] \<longrightarrow> game_loop dt t_check t_set rnd w = w) \<and>
   (\<not> game_active w \<longrightarrow>
      game_active (step (Welcomed now rnd') (step (Connect sock rx ry) w)))"
proof (intro conjI impI)
  assume "\<not> game_active w \<and> game_active (step e w)"
  then show "(\<exists>dt t_check t_set rnd. e = Tick dt t_check t_set rnd \<and> intermission_end w \<noteq> 0 \<and>
         intermission_end w \<le> t_check \<and> players w \<noteq> []) \<or>
      (\<exists>now rnd. e = Welcomed now rnd \<and> players w \<noteq> [])"
    using phase_step [of w e] by blast
next
  assume "\<not> game_active w \<and> players w = []"
  then show "game_loop dt t_check t_set rnd w = w"
    by (simp add: game_loop_def)
next
  assume "\<not> game_active w"
  then show "game_active (step (Welcomed now rnd') (step (Connect sock rx ry) w))"
    by (simp add: handle_register_def Let_def handle_autostart_def start_round_def
        length_update_pos)
qed

theorem intermission_to_active_witness:
  "\<not> game_active (run demo_intermission init_world) \<and>
   game_active (step (Tick 0 190 190 demo_rnd) (run demo_intermission init_world)) \<and>
   intermission_end (run demo_intermission init_world) = 190 \<and>
   players (run demo_intermission init_world) \<noteq> [] \<and>
   \<not> game_active (step (Tick 0 189 189 demo_rnd) (run demo_intermission init_world)) \<and>
   players (step (Disconnect 1) (run demo_intermission init_world)) = [] \<and>
   game_loop 0 200 200 demo_rnd (step (Disconnect 1) (run demo_intermission init_world))
     = step (Disconnect 1) (run demo_intermission init_world) \<and>
   game_active (step (Welcomed 185 demo_rnd)
     (step (Connect 1 100 100) (run demo_intermission init_world)))"
proof -
  let ?w = "run demo_intermission init_world"
  let ?v = "step (Disconnect 1) ?w"
  have a: "\<not> game_active ?w"
    unfolding demo_intermission_world by (simp add: run_defs)
  have b: "game_active (step (Tick 0 190 190 demo_rnd) ?w)"
    unfolding demo_intermission_world by (simp add: run_defs)
  have c: "\<not> game_active (step (Tick 0 189 189 demo_rnd) ?w)"
    unfolding demo_intermission_world by (simp add: run_defs)
  have d: "intermission_end ?w = 190" and e: "players ?w \<noteq> []"
    by (simp_all add: demo_intermission_world)
  have f: "\<not> game_active ?v" and g: "players ?v = []"
    unfolding demo_intermission_world by (simp_all add: run_defs)
  have "game_loop 0 200 200 demo_rnd ?v = ?v"
    using f g intermission_to_active [where w = ?v] by blast
  moreover have "game_active (step (Welcomed 185 demo_rnd) (step (Connect 1 100 100) ?w))"
    using a intermission_to_active [where w = ?w] by blast
  ultimately show ?thesis
    using a b c d e g by blast
qed

end
